theory Spec2Isabelle
  imports Main "HOL-Library.Word"
begin

section \<open>The LED wand: program state\<close>

text \<open>
  The program is \<^verbatim>\<open>led_wand.c\<close>, firmware for an 8-bit PIC built with the XC8 compiler.
  Its global variables and the special function registers it touches form the state.
  The two arrays are functions from the index to the cell; their declared sizes (9 and 35)
  are checked at every access, and an access outside them (undefined behaviour in C) is an
  error value. A C \<^verbatim>\<open>int\<close> is an \<^typ>\<open>int\<close>; the one computation that can leave
  the 16-bit range of the target's \<^verbatim>\<open>int\<close>, the timer reading, has its wrap-around
  written out. \<^verbatim>\<open>bool\<close> is \<^verbatim>\<open>#define\<close>d as \<^verbatim>\<open>int\<close>.
\<close>

record wand =
  messageString :: "nat \<Rightarrow> char"
  lengthOfMessageString :: int
  letterSegments :: "nat \<Rightarrow> 8 word"
  lengthOfMessage :: int
  timePerSegment :: int
  delayingVariable :: int
  isSequenceRunning :: int
  PORTC :: "8 word"
  TMR1H :: "8 word"
  TMR1L :: "8 word"
  TMR1ON :: bool
  C1OUT :: bool
  C1IF :: bool

datatype error = SegmentIndexOutOfBounds nat | MessageIndexOutOfBounds nat

text \<open>The globals as their initialisers leave them; static storage without one is zero.\<close>

definition power_on :: wand where
  "power_on =
     \<lparr>messageString = (\<lambda>i. CHR 0x00), lengthOfMessageString = 0,
      letterSegments = (\<lambda>i. 0), lengthOfMessage = 0,
      timePerSegment = 100, delayingVariable = 0, isSequenceRunning = 0,
      PORTC = 0, TMR1H = 0, TMR1L = 0, TMR1ON = False, C1OUT = False, C1IF = False\<rparr>"

text \<open>
  \<^verbatim>\<open>main\<close> assigns the message character by character and then its length; the
  reference build assigns \<^verbatim>\<open>SAHOTA\<close>. Only the 9 cells of the buffer exist.
\<close>

definition set_message :: "char list \<Rightarrow> wand \<Rightarrow> wand" where
  "set_message msg s =
     s\<lparr>messageString := (\<lambda>i. if i < length msg \<and> i < 9 then msg ! i else messageString s i),
       lengthOfMessageString := int (length msg)\<rparr>"

text \<open>The characters the encoder visits, and the frames the sequencer shows.\<close>

definition Message :: "wand \<Rightarrow> char list" where
  "Message s = map (messageString s) [0..<nat (lengthOfMessageString s)]"

definition FrameSequence :: "wand \<Rightarrow> 8 word list" where
  "FrameSequence s = map (letterSegments s) [0..<nat (lengthOfMessage s)]"

section \<open>The font encoder\<close>

text \<open>
  The 26 letter cases of the \<^verbatim>\<open>switch\<close>: each assigns three consecutive cells and
  advances the index by 3.
\<close>

definition font :: "(char \<times> 8 word \<times> 8 word \<times> 8 word) list" where
  "font =
    [(CHR ''A'', 0b11111111, 0b00001001, 0b11111111),
     (CHR ''B'', 0b11111111, 0b10010000, 0b11110000),
     (CHR ''C'', 0b11111111, 0b10000001, 0b10000001),
     (CHR ''D'', 0b11110000, 0b10010000, 0b11111111),
     (CHR ''E'', 0b11111111, 0b10010001, 0b10010001),
     (CHR ''F'', 0b11111111, 0b00001001, 0b00001001),
     (CHR ''G'', 0b11111111, 0b10010001, 0b11110001),
     (CHR ''H'', 0b11111111, 0b00001000, 0b11111111),
     (CHR ''I'', 0b10000001, 0b11111111, 0b10000001),
     (CHR ''J'', 0b10000001, 0b11111111, 0b00000001),
     (CHR ''K'', 0b11111111, 0b00100100, 0b01000010),
     (CHR ''L'', 0b11111111, 0b10000000, 0b10000000),
     (CHR ''M'', 0b11111111, 0b00001111, 0b11111111),
     (CHR ''N'', 0b11111111, 0b00000001, 0b11111111),
     (CHR ''O'', 0b11111111, 0b10000001, 0b11111111),
     (CHR ''P'', 0b11111111, 0b00001001, 0b00001111),
     (CHR ''Q'', 0b00111111, 0b01100001, 0b10111111),
     (CHR ''R'', 0b11110000, 0b00010000, 0b00010000),
     (CHR ''S'', 0b10011111, 0b10010001, 0b11110001),
     (CHR ''T'', 0b00001000, 0b11111111, 0b00001000),
     (CHR ''U'', 0b11111111, 0b10000000, 0b11111111),
     (CHR ''V'', 0b01100000, 0b10000000, 0b01100000),
     (CHR ''W'', 0b11111111, 0b11110000, 0b11111111),
     (CHR ''X'', 0b11000011, 0b00111100, 0b11000011),
     (CHR ''Y'', 0b00001111, 0b11111000, 0b00001111),
     (CHR ''Z'', 0b11100001, 0b10011001, 0b10000111)]"

definition glyph :: "char \<Rightarrow> (8 word \<times> 8 word \<times> 8 word) option" where
  "glyph c = map_of font c"

definition upper_case :: "char list" where
  "upper_case = ''ABCDEFGHIJKLMNOPQRSTUVWXYZ''"

definition supported_letter :: "char \<Rightarrow> bool" where
  "supported_letter c = (c \<in> set upper_case)"

definition unsupported :: "char \<Rightarrow> bool" where
  "unsupported c = (c \<noteq> CHR '' '' \<and> \<not> supported_letter c)"

text \<open>One assignment \<^verbatim>\<open>letterSegments[i] = v\<close>, and a sequence of them in program order.\<close>

definition store_segment :: "nat \<Rightarrow> 8 word \<Rightarrow> (nat \<Rightarrow> 8 word) \<Rightarrow> error + (nat \<Rightarrow> 8 word)" where
  "store_segment i v segs =
     (if i < 35 then Inr (segs(i := v)) else Inl (SegmentIndexOutOfBounds i))"

fun store_all :: "(nat \<times> 8 word) list \<Rightarrow> (nat \<Rightarrow> 8 word) \<Rightarrow> error + (nat \<Rightarrow> 8 word)" where
  "store_all [] segs = Inr segs"
| "store_all (w # ws) segs =
     (case store_segment (fst w) (snd w) segs of
        Inl e \<Rightarrow> Inl e
      | Inr segs' \<Rightarrow> store_all ws segs')"

text \<open>
  The \<^verbatim>\<open>switch\<close> on one character, at index \<open>idx\<close>: the assignments of the matching
  case in order, and the index after it. The space case assigns the cell at the index
  twice and advances by 2. There is no \<^verbatim>\<open>default\<close> case.
\<close>

definition switch_case :: "char \<Rightarrow> nat \<Rightarrow> (nat \<times> 8 word) list \<times> nat" where
  "switch_case c idx =
     (if c = CHR '' '' then ([(idx, 0b00000000), (idx, 0b00000000)], idx + 2)
      else case glyph c of
        Some (a, b, d) \<Rightarrow> ([(idx, a), (idx + 1, b), (idx + 2, d)], idx + 3)
      | None \<Rightarrow> ([], idx))"

text \<open>
  The body of the \<^verbatim>\<open>for\<close> loop: the \<^verbatim>\<open>switch\<close>, then the small space after every
  character, which also assigns the cell at the index twice and advances by 2.
\<close>

definition loop_body ::
  "char \<Rightarrow> (nat \<Rightarrow> 8 word) \<times> nat \<Rightarrow> error + ((nat \<Rightarrow> 8 word) \<times> nat)" where
  "loop_body c st =
     (let idx1 = snd (switch_case c (snd st)) in
      case store_all (fst (switch_case c (snd st)) @ [(idx1, 0b00000000), (idx1, 0b00000000)])
             (fst st) of
        Inl e \<Rightarrow> Inl e
      | Inr segs' \<Rightarrow> Inr (segs', idx1 + 2))"

text \<open>The loop over \<open>i = 0, ..., lengthOfMessageString - 1\<close>, reading \<^verbatim>\<open>messageString[i]\<close>.\<close>

fun convert_loop ::
  "(nat \<Rightarrow> char) \<Rightarrow> nat list \<Rightarrow> (nat \<Rightarrow> 8 word) \<times> nat \<Rightarrow> error + ((nat \<Rightarrow> 8 word) \<times> nat)" where
  "convert_loop msg [] st = Inr st"
| "convert_loop msg (i # is) st =
     (if i < 9 then
        (case loop_body (msg i) st of
           Inl e \<Rightarrow> Inl e
         | Inr st' \<Rightarrow> convert_loop msg is st')
      else Inl (MessageIndexOutOfBounds i))"

definition convertMessageStringToSegments :: "wand \<Rightarrow> error + wand" where
  "convertMessageStringToSegments s =
     (case convert_loop (messageString s) [0..<nat (lengthOfMessageString s)]
             (letterSegments s, 0) of
        Inl e \<Rightarrow> Inl e
      | Inr st \<Rightarrow> Inr (s\<lparr>letterSegments := fst st, lengthOfMessage := int (snd st)\<rparr>))"

text \<open>
  The frames the specification gives one character: a supported letter has its three
  stroke frames and the two-frame zero spacer, a space two zero frames and the spacer,
  any other character the spacer alone.
\<close>

definition spec_encode :: "char \<Rightarrow> 8 word list" where
  "spec_encode c =
     (if c = CHR '' '' then [0, 0] @ [0, 0]
      else case glyph c of
        Some (a, b, d) \<Rightarrow> [a, b, d] @ [0, 0]
      | None \<Rightarrow> [0, 0])"

text \<open>Which frames of a character the specification calls blank.\<close>

definition spec_blank :: "char \<Rightarrow> bool list" where
  "spec_blank c =
     (if c = CHR '' '' then [True, True, True, True]
      else if supported_letter c then [False, False, False, True, True]
      else [True, True])"

text \<open>
  The cells from the index up to the end of the array are still zero, as all of them are
  when \<^verbatim>\<open>main\<close> calls the encoder.
\<close>

definition blank_from :: "(nat \<Rightarrow> 8 word) \<Rightarrow> nat \<Rightarrow> bool" where
  "blank_from A idx = (\<forall>j. idx \<le> j \<and> j < 35 \<longrightarrow> A j = 0)"

section \<open>The motion edge detector\<close>

text \<open>
  \<^verbatim>\<open>int duration = TMR1L + (256 * TMR1H)\<close>: both registers are promoted to the target's
  16-bit \<^verbatim>\<open>int\<close>, so a reading of 32768 ticks or more wraps to a negative duration.
\<close>

definition duration :: "wand \<Rightarrow> int" where
  "duration s = sint ((ucast (TMR1L s) + 256 * ucast (TMR1H s)) :: 16 word)"

text \<open>
  The reading of the free-running 16-bit counter that the two registers hold: the ticks
  elapsed since the counter was last cleared, from 0 to 65535.
\<close>

definition TMR1 :: "wand \<Rightarrow> int" where
  "TMR1 s = uint (TMR1L s) + 256 * uint (TMR1H s)"

text \<open>
  \<^verbatim>\<open>timePerSegment = duration / (2.4 * lengthOfMessage)\<close> is a floating-point division
  whose result is converted to \<^verbatim>\<open>int\<close>. Its value depends on the floating-point format
  and rounding of the target, which the source does not fix; the handler takes it as a
  parameter \<open>q\<close>, the function from \<open>duration\<close> and \<open>lengthOfMessage\<close> to that value.
\<close>

type_synonym fquot = "int \<Rightarrow> int \<Rightarrow> int"

text \<open>
  The interrupt service routine. The timer is stopped for the read and restarted; the
  comparator output selects the branch; the interrupt flag is cleared at the end.
\<close>

definition ISR :: "fquot \<Rightarrow> wand \<Rightarrow> wand" where
  "ISR q s0 =
     (let s = s0\<lparr>TMR1ON := True\<rparr>;
          d = duration s;
          s' = (if \<not> C1OUT s then
                  (if d > 14000 then
                     s\<lparr>timePerSegment := 0, delayingVariable := 1, TMR1H := 0, TMR1L := 0\<rparr>
                   else s)
                else
                  (if d > 1500 then
                     s\<lparr>timePerSegment := q d (lengthOfMessage s), isSequenceRunning := 1,
                       TMR1H := 0, TMR1L := 0\<rparr>
                   else s))
      in s'\<lparr>C1IF := False\<rparr>)"

text \<open>
  The frame period in the specification's words, \<open>t / (2.4 * n)\<close> truncated to an
  integer, in exact arithmetic for non-negative \<open>t\<close> and positive \<open>n\<close>.
\<close>

definition spec_framePeriod :: "int \<Rightarrow> int \<Rightarrow> int" where
  "spec_framePeriod t n = (5 * t) div (12 * n)"

section \<open>The display sequencer and the controller\<close>

text \<open>
  The handler preempts the main loop. An edge is what the hardware presents when the
  comparator interrupt is taken: the comparator output and the two timer registers. A
  schedule lists, for the successive points at which the main loop can be preempted,
  whether an edge arrives there; past its end no interrupt arrives. The points are the
  body of the busy-wait loop and the start of every frame. A handler taken between the
  decrement and the check of the loop, or inside \<^verbatim>\<open>delay\<close> before the counter is
  initialised, is not among them.
\<close>

type_synonym edge = "bool \<times> 8 word \<times> 8 word"

definition next_edge :: "edge option list \<Rightarrow> edge option" where
  "next_edge sch = (case sch of [] \<Rightarrow> None | e # _ \<Rightarrow> e)"

definition comparator_interrupt :: "fquot \<Rightarrow> edge option \<Rightarrow> wand \<Rightarrow> wand" where
  "comparator_interrupt q e s =
     (case e of
        None \<Rightarrow> s
      | Some ed \<Rightarrow>
          ISR q (s\<lparr>TMR1H := fst (snd ed), TMR1L := snd (snd ed), C1OUT := fst ed, C1IF := True\<rparr>))"

text \<open>
  \<^verbatim>\<open>for (delayingVariable = delayTime; delayingVariable > 0; delayingVariable--) {}\<close>
  from its condition on; \<open>k\<close> counts the iterations, the ticks the frame is held.
\<close>

function delay_loop ::
  "fquot \<Rightarrow> edge option list \<Rightarrow> wand \<Rightarrow> nat \<Rightarrow> wand \<times> edge option list \<times> nat" where
  "delay_loop q sch s k =
     (if delayingVariable s > 0 then
        (let s1 = comparator_interrupt q (next_edge sch) s
         in delay_loop q (tl sch) (s1\<lparr>delayingVariable := delayingVariable s1 - 1\<rparr>) (Suc k))
      else (s, sch, k))"
  by pat_completeness auto
termination
  by (relation "measures [\<lambda>(q, sch, s, k). length sch, \<lambda>(q, sch, s, k). nat (delayingVariable s)]")
     (auto simp: next_edge_def comparator_interrupt_def split: list.splits)

declare delay_loop.simps [simp del]

definition delay ::
  "fquot \<Rightarrow> edge option list \<Rightarrow> int \<Rightarrow> wand \<Rightarrow> wand \<times> edge option list \<times> nat" where
  "delay q sch delayTime s = delay_loop q sch (s\<lparr>delayingVariable := delayTime\<rparr>) 0"

text \<open>
  The \<^verbatim>\<open>for\<close> loop of \<^verbatim>\<open>runLEDSequence\<close> over the indices it visits; \<open>out\<close> collects every
  pattern written to the port with the ticks it was held.
\<close>

fun show_frames ::
  "fquot \<Rightarrow> nat list \<Rightarrow> edge option list \<Rightarrow> wand \<Rightarrow> (8 word \<times> nat) list \<Rightarrow>
     error + (wand \<times> edge option list \<times> (8 word \<times> nat) list)" where
  "show_frames q [] sch s out = Inr (s, sch, out)"
| "show_frames q (i # is) sch s out =
     (if i < 35 then
        (let s0 = comparator_interrupt q (next_edge sch) s;
             s1 = s0\<lparr>PORTC := letterSegments s0 i\<rparr>;
             r = delay q (tl sch) (timePerSegment s1) s1
         in show_frames q is (fst (snd r)) (fst r) (out @ [(PORTC s1, snd (snd r))]))
      else Inl (SegmentIndexOutOfBounds i))"

definition runLEDSequence ::
  "fquot \<Rightarrow> edge option list \<Rightarrow> wand \<Rightarrow>
     error + (wand \<times> edge option list \<times> (8 word \<times> nat) list)" where
  "runLEDSequence q sch s =
     (case show_frames q (rev [0..<nat (lengthOfMessage s)]) sch s [] of
        Inl e \<Rightarrow> Inl e
      | Inr r \<Rightarrow> Inr ((fst r)\<lparr>PORTC := 0\<rparr>, snd r))"

text \<open>One pass through the body of the \<^verbatim>\<open>while (1)\<close> loop of \<^verbatim>\<open>main\<close>.\<close>

definition main_loop_body ::
  "fquot \<Rightarrow> edge option list \<Rightarrow> wand \<Rightarrow>
     error + (wand \<times> edge option list \<times> (8 word \<times> nat) list)" where
  "main_loop_body q sch s =
     (if isSequenceRunning s \<noteq> 0 then
        (case runLEDSequence q sch s of
           Inl e \<Rightarrow> Inl e
         | Inr r \<Rightarrow> Inr ((fst r)\<lparr>isSequenceRunning := 0\<rparr>, snd r))
      else Inr (s, sch, []))"

section \<open>Properties of the font encoder\<close>

lemmas encoder_defs = convertMessageStringToSegments_def set_message_def power_on_def
  loop_body_def switch_case_def glyph_def font_def store_segment_def upt_rec

lemma fst_font: "map fst font = upper_case"
  by (simp add: font_def upper_case_def)

lemma glyph_None_iff: "glyph c = None \<longleftrightarrow> \<not> supported_letter c"
  unfolding glyph_def supported_letter_def map_of_eq_None_iff fst_font[symmetric] by simp

lemma glyph_nonzero:
  "glyph c = Some (a, b, d) \<Longrightarrow> a \<noteq> 0 \<and> b \<noteq> 0 \<and> d \<noteq> 0"
  by (auto simp: glyph_def font_def split: if_splits)

lemma space_not_letter: "\<not> supported_letter (CHR '' '')"
  by (simp add: supported_letter_def upper_case_def)

lemma store_all_replay:
  "store_all ws A = Inr A1 \<Longrightarrow>
   store_all ws B = Inr (\<lambda>j. if j \<in> fst ` set ws then A1 j else B j)"
proof (induction ws arbitrary: A B)
  case Nil
  then show ?case by simp
next
  case (Cons w ws)
  from Cons.prems have lt: "fst w < 35"
    and rest: "store_all ws (A(fst w := snd w)) = Inr A1"
    by (auto simp: store_segment_def split: if_splits)
  have "Inr A1 = (Inr (\<lambda>j. if j \<in> fst ` set ws then A1 j else (A(fst w := snd w)) j)
                  :: error + (nat \<Rightarrow> 8 word))"
    unfolding rest[symmetric] by (rule Cons.IH[OF rest])
  then have "A1 = (\<lambda>j. if j \<in> fst ` set ws then A1 j else (A(fst w := snd w)) j)"
    by (rule Inr_inject)
  then have "A1 (fst w) = (if fst w \<in> fst ` set ws then A1 (fst w) else (A(fst w := snd w)) (fst w))"
    by (rule fun_cong)
  then have "fst w \<notin> fst ` set ws \<Longrightarrow> A1 (fst w) = snd w"
    by simp
  then have step: "(\<lambda>j. if j \<in> fst ` set ws then A1 j else (B(fst w := snd w)) j)
       = (\<lambda>j. if j \<in> fst ` set (w # ws) then A1 j else B j)"
    by (intro ext) auto
  have "store_all (w # ws) B = store_all ws (B(fst w := snd w))"
    using lt by (simp add: store_segment_def)
  also have "\<dots> = Inr (\<lambda>j. if j \<in> fst ` set ws then A1 j else (B(fst w := snd w)) j)"
    by (rule Cons.IH[OF rest])
  also have "\<dots> = Inr (\<lambda>j. if j \<in> fst ` set (w # ws) then A1 j else B j)"
    by (simp only: step)
  finally show ?case .
qed

lemma loop_body_replay:
  assumes "loop_body c (A, idx) = Inr (A1, idx1)"
  shows "\<exists>W. \<forall>B. loop_body c (B, idx) = Inr (\<lambda>j. if j \<in> W then A1 j else B j, idx1)"
proof -
  let ?ws = "fst (switch_case c idx) @ [(snd (switch_case c idx), 0), (snd (switch_case c idx), 0)]"
  from assms have st: "store_all ?ws A = Inr A1" and i: "idx1 = snd (switch_case c idx) + 2"
    by (auto simp: loop_body_def Let_def split: sum.splits)
  have "\<forall>B. loop_body c (B, idx) = Inr (\<lambda>j. if j \<in> fst ` set ?ws then A1 j else B j, idx1)"
    using store_all_replay[OF st] i by (simp add: loop_body_def Let_def)
  then show ?thesis by blast
qed

lemma convert_loop_replay:
  "convert_loop msg is (A, idx) = Inr (A', idx') \<Longrightarrow>
   \<exists>W. \<forall>B. convert_loop msg is (B, idx) = Inr (\<lambda>j. if j \<in> W then A' j else B j, idx')"
proof (induction "is" arbitrary: A idx)
  case Nil
  then have "\<forall>B. convert_loop msg [] (B, idx) = Inr (\<lambda>j. if j \<in> {} then A' j else B j, idx')"
    by simp
  then show ?case by blast
next
  case (Cons i "is")
  from Cons.prems obtain A1 idx1 where i: "i < 9"
    and body: "loop_body (msg i) (A, idx) = Inr (A1, idx1)"
    and rest: "convert_loop msg is (A1, idx1) = Inr (A', idx')"
    by (auto split: if_splits sum.splits)
  from loop_body_replay[OF body] obtain W1 where
    W1: "\<And>B. loop_body (msg i) (B, idx) = Inr (\<lambda>j. if j \<in> W1 then A1 j else B j, idx1)"
    by blast
  from Cons.IH[OF rest] obtain W2 where
    W2: "\<And>B. convert_loop msg is (B, idx1) = Inr (\<lambda>j. if j \<in> W2 then A' j else B j, idx')"
    by blast
  have "Inr (A', idx') = (Inr (\<lambda>j. if j \<in> W2 then A' j else A1 j, idx')
                  :: error + ((nat \<Rightarrow> 8 word) \<times> nat))"
    unfolding rest[symmetric] by (rule W2)
  then have "A' = (\<lambda>j. if j \<in> W2 then A' j else A1 j)"
    by simp
  then have pt: "A' j = (if j \<in> W2 then A' j else A1 j)" for j
    by (rule fun_cong)
  have keep: "j \<notin> W2 \<Longrightarrow> A1 j = A' j" for j
    using pt[of j] by (cases "j \<in> W2") simp_all
  have "convert_loop msg (i # is) (B, idx)
      = Inr (\<lambda>j. if j \<in> W1 \<union> W2 then A' j else B j, idx')" for B
  proof -
    have "(\<lambda>j. if j \<in> W2 then A' j else (if j \<in> W1 then A1 j else B j))
        = (\<lambda>j. if j \<in> W1 \<union> W2 then A' j else B j)"
      by (intro ext) (auto simp: keep)
    then show ?thesis using i W1[of B] W2 by simp
  qed
  then show ?case by blast
qed

lemma convert_loop_again:
  assumes "convert_loop msg is (A, idx) = Inr (A', idx')"
  shows "convert_loop msg is (A', idx) = Inr (A', idx')"
proof -
  from convert_loop_replay[OF assms] obtain W where
    "convert_loop msg is (A', idx) = Inr (\<lambda>j. if j \<in> W then A' j else A' j, idx')"
    by blast
  then show ?thesis by simp
qed

text \<open>
  Claim C9. Encoding is idempotent: when the encoder has run on a message, running it
  again on the same message leaves the whole state, and with it the frame array and the
  frame count, exactly as the first run left it. The assignments the encoder makes depend
  on the message alone, so the second run repeats the first run's assignments.
\<close>

theorem encode_idempotent:
  assumes "convertMessageStringToSegments s = Inr s'"
  shows "convertMessageStringToSegments s' = Inr s'"
proof -
  from assms obtain A' idx' where
    run: "convert_loop (messageString s) [0..<nat (lengthOfMessageString s)] (letterSegments s, 0)
            = Inr (A', idx')"
    and s': "s' = s\<lparr>letterSegments := A', lengthOfMessage := int idx'\<rparr>"
    by (auto simp: convertMessageStringToSegments_def split: sum.splits)
  from convert_loop_again[OF run] show ?thesis
    by (simp add: convertMessageStringToSegments_def s')
qed

theorem encode_idempotent_witness:
  "FrameSequence (projr (convertMessageStringToSegments (set_message ''HI'' power_on)))
     = [0xFF, 0x08, 0xFF, 0, 0, 0x81, 0xFF, 0x81, 0, 0] \<and>
   convertMessageStringToSegments
     (projr (convertMessageStringToSegments (set_message ''HI'' power_on)))
     = Inr (projr (convertMessageStringToSegments (set_message ''HI'' power_on)))"
proof -
  have h: "convertMessageStringToSegments (set_message ''HI'' power_on)
      = Inr (projr (convertMessageStringToSegments (set_message ''HI'' power_on)))"
    by (simp add: encoder_defs)
  have f: "FrameSequence (projr (convertMessageStringToSegments (set_message ''HI'' power_on)))
     = [0xFF, 0x08, 0xFF, 0, 0, 0x81, 0xFF, 0x81, 0, 0]"
    by (simp add: encoder_defs FrameSequence_def)
  from encode_idempotent[OF h] f show ?thesis by simp
qed

lemma loop_body_space:
  "loop_body (CHR '' '') (A, idx) =
     (if idx < 35 then
        (if idx + 2 < 35 then Inr (A(idx := 0, idx + 2 := 0), idx + 4)
         else Inl (SegmentIndexOutOfBounds (idx + 2)))
      else Inl (SegmentIndexOutOfBounds idx))"
  by (simp add: loop_body_def switch_case_def store_segment_def)

lemma loop_body_letter:
  assumes "c \<noteq> CHR '' ''" and "glyph c = Some (a, b, d)"
    and "loop_body c (A, idx) = Inr (A', idx')"
  shows "idx + 3 < 35 \<and> idx' = idx + 5 \<and>
         A' = A(idx := a, idx + 1 := b, idx + 2 := d, idx + 3 := 0)"
  using assms
  by (simp add: loop_body_def switch_case_def store_segment_def Let_def split: if_splits)

lemma loop_body_other:
  assumes "c \<noteq> CHR '' ''" and "glyph c = None"
  shows "loop_body c (A, idx) =
     (if idx < 35 then Inr (A(idx := 0), idx + 2) else Inl (SegmentIndexOutOfBounds idx))"
  using assms by (simp add: loop_body_def switch_case_def store_segment_def)

text \<open>
  The spacer step assigns the cell at the index twice and advances by 2, so the last
  frame of every character is a cell the loop body does not assign: it keeps what it
  held before.
\<close>

lemma spacer_second_cell_kept:
  assumes "loop_body c (A, idx) = Inr (A', idx')"
  shows "idx' \<ge> 2 \<and> A' (idx' - 1) = A (idx' - 1)"
proof (cases "c = CHR '' ''")
  case True
  with assms show ?thesis
    by (auto simp: loop_body_space split: if_splits)
next
  case False
  show ?thesis
  proof (cases "glyph c")
    case None
    with assms False show ?thesis
      by (auto simp: loop_body_other split: if_splits)
  next
    case (Some g)
    obtain a b d where g: "g = (a, b, d)" by (cases g) auto
    from loop_body_letter[OF False Some[unfolded g] assms] show ?thesis
      by simp
  qed
qed

lemma upt_4: "[i..<i + 4] = [i, i + 1, i + 2, i + 3]"
  by (simp add: upt_rec)

lemma upt_5: "[i..<i + 5] = [i, i + 1, i + 2, i + 3, i + 4]"
  by (simp add: upt_rec)

lemma upt_2: "[i..<i + 2] = [i, i + 1]"
  by (simp add: upt_rec)

text \<open>
  One character, encoded where the cells from the index on are still zero: the cells
  between the old and the new index hold the character's frames, the earlier cells are
  untouched, and the cells from the new index on are still zero. The second frame of
  every spacer, and of the space glyph, is a cell the encoder never assigns.
\<close>

lemma loop_body_frames:
  assumes body: "loop_body c (A, idx) = Inr (A', idx')"
    and blank: "blank_from A idx" and fit: "idx' \<le> 35"
  shows "map A' [idx..<idx'] = spec_encode c \<and> idx \<le> idx' \<and>
         (\<forall>j<idx. A' j = A j) \<and> blank_from A' idx'"
proof (cases "c = CHR '' ''")
  case True
  with body have "idx + 2 < 35" "idx' = idx + 4" "A' = A(idx := 0, idx + 2 := 0)"
    by (auto simp: loop_body_space split: if_splits)
  with blank fit True show ?thesis
    by (auto simp: blank_from_def spec_encode_def upt_4)
next
  case False
  show ?thesis
  proof (cases "glyph c")
    case None
    with body False have "idx < 35" "idx' = idx + 2" "A' = A(idx := 0)"
      by (auto simp: loop_body_other split: if_splits)
    with blank fit False None show ?thesis
      by (auto simp: blank_from_def spec_encode_def upt_2)
  next
    case (Some g)
    obtain a b d where g: "g = (a, b, d)" by (cases g) auto
    from loop_body_letter[OF False Some[unfolded g] body]
    have "idx + 3 < 35" "idx' = idx + 5" "A' = A(idx := a, idx + 1 := b, idx + 2 := d, idx + 3 := 0)"
      by auto
    with blank fit False Some g show ?thesis
      by (auto simp: blank_from_def spec_encode_def upt_5)
  qed
qed

lemma convert_loop_mono:
  "convert_loop msg is (A, idx) = Inr (A', idx') \<Longrightarrow> idx \<le> idx'"
proof (induction "is" arbitrary: A idx)
  case Nil
  then show ?case by simp
next
  case (Cons i "is")
  from Cons.prems obtain A1 idx1 where
    body: "loop_body (msg i) (A, idx) = Inr (A1, idx1)"
    and rest: "convert_loop msg is (A1, idx1) = Inr (A', idx')"
    by (auto split: if_splits sum.splits)
  from body have "idx \<le> idx1"
    by (auto simp: loop_body_def switch_case_def Let_def split: sum.splits if_splits option.splits)
  with Cons.IH[OF rest] show ?case by simp
qed

lemma convert_loop_frames:
  "convert_loop msg is (A, idx) = Inr (A', idx') \<Longrightarrow> blank_from A idx \<Longrightarrow> idx' \<le> 35 \<Longrightarrow>
   map A' [idx..<idx'] = concat (map (\<lambda>i. spec_encode (msg i)) is) \<and>
   (\<forall>j<idx. A' j = A j)"
proof (induction "is" arbitrary: A idx)
  case Nil
  then show ?case by simp
next
  case (Cons i "is")
  from Cons.prems(1) obtain A1 idx1 where
    body: "loop_body (msg i) (A, idx) = Inr (A1, idx1)"
    and rest: "convert_loop msg is (A1, idx1) = Inr (A', idx')"
    by (auto split: if_splits sum.splits)
  from convert_loop_mono[OF rest] Cons.prems(3) have fit1: "idx1 \<le> 35" and le1: "idx1 \<le> idx'"
    by simp_all
  from loop_body_frames[OF body Cons.prems(2) fit1]
  have f1: "map A1 [idx..<idx1] = spec_encode (msg i)" and le: "idx \<le> idx1"
    and k1: "\<forall>j<idx. A1 j = A j" and b1: "blank_from A1 idx1"
    by simp_all
  from Cons.IH[OF rest b1 Cons.prems(3)]
  have f2: "map A' [idx1..<idx'] = concat (map (\<lambda>i. spec_encode (msg i)) is)"
    and k2: "\<forall>j<idx1. A' j = A1 j"
    by simp_all
  have "[idx..<idx'] = [idx..<idx1] @ [idx1..<idx']"
    using le le1 by (metis le_Suc_ex upt_add_eq_append)
  moreover have "map A' [idx..<idx1] = map A1 [idx..<idx1]"
    using k2 by simp
  ultimately have "map A' [idx..<idx'] = spec_encode (msg i) @ concat (map (\<lambda>i. spec_encode (msg i)) is)"
    using f1 f2 by simp
  moreover have "\<forall>j<idx. A' j = A j"
    using k1 k2 le by simp
  ultimately show ?case by simp
qed

text \<open>
  The whole message: the frame sequence is the concatenation, in message order, of the
  frames of its characters.
\<close>

lemma encode_frames:
  assumes run: "convertMessageStringToSegments s = Inr s'"
    and zero: "\<forall>j<35. letterSegments s j = 0"
    and fit: "lengthOfMessage s' \<le> 35"
  shows "FrameSequence s' = concat (map spec_encode (Message s))"
proof -
  from run obtain A' idx' where
    loop: "convert_loop (messageString s) [0..<nat (lengthOfMessageString s)] (letterSegments s, 0)
            = Inr (A', idx')"
    and s': "s' = s\<lparr>letterSegments := A', lengthOfMessage := int idx'\<rparr>"
    by (auto simp: convertMessageStringToSegments_def split: sum.splits)
  from zero have "blank_from (letterSegments s) 0"
    by (simp add: blank_from_def)
  moreover from fit have "idx' \<le> 35"
    by (simp add: s')
  ultimately have "map A' [0..<idx'] =
      concat (map (\<lambda>i. spec_encode (messageString s i)) [0..<nat (lengthOfMessageString s)])"
    using convert_loop_frames[OF loop] by simp
  then show ?thesis
    by (simp add: FrameSequence_def Message_def s' comp_def)
qed

lemma glyph_supported:
  "supported_letter c \<Longrightarrow> \<exists>a b d. glyph c = Some (a, b, d)"
  using glyph_None_iff[of c] by (cases "glyph c") auto

lemma spec_encode_blank: "map (\<lambda>f. f = 0) (spec_encode c) = spec_blank c"
proof (cases "c = CHR '' ''")
  case True
  then show ?thesis by (simp add: spec_encode_def spec_blank_def)
next
  case False
  show ?thesis
  proof (cases "glyph c")
    case None
    with False glyph_None_iff[of c] show ?thesis
      by (simp add: spec_encode_def spec_blank_def)
  next
    case (Some g)
    obtain a b d where g: "g = (a, b, d)" by (cases g) auto
    from Some g glyph_nonzero[of c a b d] glyph_None_iff[of c] False show ?thesis
      by (simp add: spec_encode_def spec_blank_def)
  qed
qed

text \<open>
  Claim C4. When the encoder runs on the zero-initialised frame array and the frame
  sequence fits the 35 cells, every supported letter of the message contributes exactly
  its 3 stroke frames followed by 2 zero frames, and every space contributes 4 zero
  frames (2 for the glyph, 2 for the spacer); these frames stand between the frames of
  the characters before it and those of the characters after it, in message order.
\<close>

theorem encode_supported_character:
  assumes "convertMessageStringToSegments s = Inr s'"
    and "\<forall>j<35. letterSegments s j = 0"
    and "lengthOfMessage s' \<le> 35"
    and "Message s = pre @ c # post"
  shows "(supported_letter c \<longrightarrow>
           (\<exists>a b d. glyph c = Some (a, b, d) \<and>
              FrameSequence s' =
                concat (map spec_encode pre) @ [a, b, d, 0, 0] @ concat (map spec_encode post))) \<and>
         (c = CHR '' '' \<longrightarrow>
            FrameSequence s' =
              concat (map spec_encode pre) @ [0, 0, 0, 0] @ concat (map spec_encode post))"
proof -
  have all: "FrameSequence s' =
      concat (map spec_encode pre) @ spec_encode c @ concat (map spec_encode post)"
    using encode_frames[OF assms(1-3)] assms(4) by simp
  have "supported_letter c \<Longrightarrow> \<exists>a b d. glyph c = Some (a, b, d) \<and> spec_encode c = [a, b, d, 0, 0]"
    using glyph_supported[of c] space_not_letter by (auto simp: spec_encode_def)
  moreover have "c = CHR '' '' \<Longrightarrow> spec_encode c = [0, 0, 0, 0]"
    by (simp add: spec_encode_def)
  ultimately show ?thesis using all by auto
qed

theorem encode_supported_character_witness:
  "supported_letter (CHR ''H'') \<and>
   Message (set_message ''H I'' power_on) = ''H I'' \<and>
   (\<exists>a b d. glyph (CHR ''H'') = Some (a, b, d) \<and>
      FrameSequence (projr (convertMessageStringToSegments (set_message ''H I'' power_on)))
        = [a, b, d, 0, 0] @ [0, 0, 0, 0] @ [0x81, 0xFF, 0x81, 0, 0]) \<and>
   FrameSequence (projr (convertMessageStringToSegments (set_message ''H I'' power_on)))
     = [0xFF, 0x08, 0xFF, 0, 0] @ [0, 0, 0, 0] @ [0x81, 0xFF, 0x81, 0, 0]"
proof -
  let ?s = "set_message ''H I'' power_on"
  let ?s' = "projr (convertMessageStringToSegments ?s)"
  have run: "convertMessageStringToSegments ?s = Inr ?s'"
    by (simp add: encoder_defs)
  have zero: "\<forall>j<35. letterSegments ?s j = 0"
    by (simp add: set_message_def power_on_def)
  have fit: "lengthOfMessage ?s' \<le> 35"
    by (simp add: encoder_defs)
  have msg: "Message ?s = ''H I''"
    by (simp add: Message_def set_message_def power_on_def upt_rec)
  have m1: "Message ?s = [] @ CHR ''H'' # '' I''" and m2: "Message ?s = ''H'' @ CHR '' '' # ''I''"
    using msg by simp_all
  have H: "supported_letter (CHR ''H'')"
    by (simp add: supported_letter_def upper_case_def)
  have rest: "concat (map spec_encode '' I'') = [0, 0, 0, 0] @ [0x81, 0xFF, 0x81, 0, 0]"
    by (simp add: spec_encode_def glyph_def font_def)
  from encode_supported_character[OF run zero fit m1] H rest
  have letter: "\<exists>a b d. glyph (CHR ''H'') = Some (a, b, d) \<and>
      FrameSequence ?s' = [a, b, d, 0, 0] @ [0, 0, 0, 0] @ [0x81, 0xFF, 0x81, 0, 0]"
    by simp
  from encode_supported_character[OF run zero fit m2]
  have "FrameSequence ?s' = concat (map spec_encode ''H'') @ [0, 0, 0, 0] @ concat (map spec_encode ''I'')"
    by simp
  then have space: "FrameSequence ?s' = [0xFF, 0x08, 0xFF, 0, 0] @ [0, 0, 0, 0] @ [0x81, 0xFF, 0x81, 0, 0]"
    by (simp add: spec_encode_def glyph_def font_def)
  from H msg letter space show ?thesis by (intro conjI)
qed

text \<open>
  Claim C5. Under the same conditions, every character that is neither a space nor an
  upper-case letter contributes exactly 2 zero frames, the spacer, and no stroke frames.
\<close>

theorem encode_unsupported_character:
  assumes "convertMessageStringToSegments s = Inr s'"
    and "\<forall>j<35. letterSegments s j = 0"
    and "lengthOfMessage s' \<le> 35"
    and "Message s = pre @ c # post"
    and "unsupported c"
  shows "FrameSequence s' = concat (map spec_encode pre) @ [0, 0] @ concat (map spec_encode post)"
proof -
  from assms(5) have "spec_encode c = [0, 0]"
    using glyph_None_iff[of c] by (simp add: spec_encode_def unsupported_def)
  then show ?thesis
    using encode_frames[OF assms(1-3)] assms(4) by simp
qed

theorem encode_unsupported_character_witness:
  "unsupported (CHR ''i'') \<and>
   Message (set_message ''Hi'' power_on) = ''Hi'' \<and>
   FrameSequence (projr (convertMessageStringToSegments (set_message ''Hi'' power_on)))
     = [0xFF, 0x08, 0xFF, 0, 0] @ [0, 0]"
proof -
  let ?s = "set_message ''Hi'' power_on"
  let ?s' = "projr (convertMessageStringToSegments ?s)"
  have run: "convertMessageStringToSegments ?s = Inr ?s'"
    by (simp add: encoder_defs)
  have zero: "\<forall>j<35. letterSegments ?s j = 0"
    by (simp add: set_message_def power_on_def)
  have fit: "lengthOfMessage ?s' \<le> 35"
    by (simp add: encoder_defs)
  have msg: "Message ?s = ''Hi''"
    by (simp add: Message_def set_message_def power_on_def upt_rec)
  then have m: "Message ?s = ''H'' @ CHR ''i'' # []"
    by simp
  have u: "unsupported (CHR ''i'')"
    by (simp add: unsupported_def supported_letter_def upper_case_def)
  from encode_unsupported_character[OF run zero fit m u]
  have "FrameSequence ?s' = [0xFF, 0x08, 0xFF, 0, 0] @ [0, 0]"
    by (simp add: spec_encode_def glyph_def font_def)
  with u msg show ?thesis by simp
qed

text \<open>
  Claim C10. Each of the 3 stroke frames of every supported letter is a nonzero byte.
  So in an encoded message the zero frames are exactly the frames of space glyphs and
  of spacers, and the strokes of two consecutive letters are separated by the two zero
  frames of the spacer between them.
\<close>

theorem strokes_nonzero_blank_frames:
  assumes "convertMessageStringToSegments s = Inr s'"
    and "\<forall>j<35. letterSegments s j = 0"
    and "lengthOfMessage s' \<le> 35"
  shows "(\<forall>c. supported_letter c \<longrightarrow>
            (\<exists>a b d. glyph c = Some (a, b, d) \<and> a \<noteq> 0 \<and> b \<noteq> 0 \<and> d \<noteq> 0)) \<and>
         map (\<lambda>f. f = 0) (FrameSequence s') = concat (map spec_blank (Message s)) \<and>
         (\<forall>pre c1 c2 post.
            Message s = pre @ c1 # c2 # post \<and> supported_letter c1 \<and> supported_letter c2 \<longrightarrow>
            (\<exists>a1 b1 d1 a2 b2 d2.
               glyph c1 = Some (a1, b1, d1) \<and> glyph c2 = Some (a2, b2, d2) \<and>
               FrameSequence s' =
                 concat (map spec_encode pre) @ [a1, b1, d1] @ [0, 0] @ [a2, b2, d2] @ [0, 0] @
                 concat (map spec_encode post)))"
proof -
  have strokes: "\<exists>a b d. glyph c = Some (a, b, d) \<and> a \<noteq> 0 \<and> b \<noteq> 0 \<and> d \<noteq> 0"
    if "supported_letter c" for c
    using glyph_supported[OF that] glyph_nonzero[of c] by blast
  have mask: "map (\<lambda>f. f = 0) (FrameSequence s') = concat (map spec_blank (Message s))"
    unfolding encode_frames[OF assms] map_concat
    by (simp add: comp_def spec_encode_blank)
  have letter: "\<exists>a b d. glyph c = Some (a, b, d) \<and> spec_encode c = [a, b, d] @ [0, 0]"
    if "supported_letter c" for c
    using glyph_supported[OF that] that space_not_letter by (auto simp: spec_encode_def)
  have pair: "\<exists>a1 b1 d1 a2 b2 d2.
               glyph c1 = Some (a1, b1, d1) \<and> glyph c2 = Some (a2, b2, d2) \<and>
               FrameSequence s' =
                 concat (map spec_encode pre) @ [a1, b1, d1] @ [0, 0] @ [a2, b2, d2] @ [0, 0] @
                 concat (map spec_encode post)"
    if m: "Message s = pre @ c1 # c2 # post" and l1: "supported_letter c1"
      and l2: "supported_letter c2" for pre c1 c2 post
  proof -
    from letter[OF l1] obtain a1 b1 d1 where
      g1: "glyph c1 = Some (a1, b1, d1)" and e1: "spec_encode c1 = [a1, b1, d1] @ [0, 0]"
      by blast
    from letter[OF l2] obtain a2 b2 d2 where
      g2: "glyph c2 = Some (a2, b2, d2)" and e2: "spec_encode c2 = [a2, b2, d2] @ [0, 0]"
      by blast
    have "FrameSequence s' =
        concat (map spec_encode pre) @ [a1, b1, d1] @ [0, 0] @ [a2, b2, d2] @ [0, 0] @
        concat (map spec_encode post)"
      using encode_frames[OF assms] m e1 e2 by simp
    with g1 g2 show ?thesis by blast
  qed
  from strokes mask pair show ?thesis by blast
qed

theorem strokes_nonzero_blank_frames_witness:
  "map (\<lambda>f. f = 0)
     (FrameSequence (projr (convertMessageStringToSegments (set_message ''SAHOTA'' power_on))))
   = concat (replicate 6 [False, False, False, True, True]) \<and>
   (\<exists>a b d. glyph (CHR ''S'') = Some (a, b, d) \<and> a \<noteq> 0 \<and> b \<noteq> 0 \<and> d \<noteq> 0) \<and>
   (\<exists>a1 b1 d1 a2 b2 d2.
      glyph (CHR ''S'') = Some (a1, b1, d1) \<and> glyph (CHR ''A'') = Some (a2, b2, d2) \<and>
      FrameSequence (projr (convertMessageStringToSegments (set_message ''SAHOTA'' power_on)))
        = concat (map spec_encode []) @ [a1, b1, d1] @ [0, 0] @ [a2, b2, d2] @ [0, 0] @
          concat (map spec_encode ''HOTA''))"
proof -
  let ?s = "set_message ''SAHOTA'' power_on"
  let ?s' = "projr (convertMessageStringToSegments ?s)"
  have run: "convertMessageStringToSegments ?s = Inr ?s'"
    by (simp add: encoder_defs)
  have zero: "\<forall>j<35. letterSegments ?s j = 0"
    by (simp add: set_message_def power_on_def)
  have fit: "lengthOfMessage ?s' \<le> 35"
    by (simp add: encoder_defs)
  have msg: "Message ?s = ''SAHOTA''"
    by (simp add: Message_def set_message_def power_on_def upt_rec)
  have S: "supported_letter (CHR ''S'')" and A: "supported_letter (CHR ''A'')"
    by (simp_all add: supported_letter_def upper_case_def)
  note w = strokes_nonzero_blank_frames[OF run zero fit]
  from w S have c1: "\<exists>a b d. glyph (CHR ''S'') = Some (a, b, d) \<and> a \<noteq> 0 \<and> b \<noteq> 0 \<and> d \<noteq> 0"
    by blast
  from w msg have c2: "map (\<lambda>f. f = 0) (FrameSequence ?s')
      = concat (replicate 6 [False, False, False, True, True])"
    by (simp add: spec_blank_def supported_letter_def upper_case_def eval_nat_numeral)
  have m: "Message ?s = [] @ CHR ''S'' # CHR ''A'' # ''HOTA''"
    using msg by simp
  from w m S A have c3: "\<exists>a1 b1 d1 a2 b2 d2.
      glyph (CHR ''S'') = Some (a1, b1, d1) \<and> glyph (CHR ''A'') = Some (a2, b2, d2) \<and>
      FrameSequence ?s'
        = concat (map spec_encode []) @ [a1, b1, d1] @ [0, 0] @ [a2, b2, d2] @ [0, 0] @
          concat (map spec_encode ''HOTA'')"
    by blast
  from c2 c1 c3 show ?thesis by (intro conjI)
qed

text \<open>
  Claim C6 says that an unsupported character appends nothing and leaves the frame index
  where it was. The loop body run on the unsupported character \<open>a\<close> at index 0
  returns index 2.
\<close>

theorem unsupported_character_advances_counterexample:
  "unsupported (CHR ''a'') \<and>
   map_sum id snd (loop_body (CHR ''a'') (letterSegments power_on, 0)) = Inr 2"
  by (simp add: unsupported_def supported_letter_def upper_case_def encoder_defs)

text \<open>
  Claim C6, amended. For an unsupported character the \<^verbatim>\<open>switch\<close> matches no case:
  it assigns no cell and does not advance the index. The spacer step after the
  \<^verbatim>\<open>switch\<close> still runs: it assigns zero to the cell at the index and advances the
  index by exactly 2.
\<close>

theorem unsupported_character_spacer_only:
  assumes "unsupported c"
  shows "switch_case c idx = ([], idx) \<and>
         loop_body c (segs, idx) =
           (if idx < 35 then Inr (segs(idx := 0), idx + 2)
            else Inl (SegmentIndexOutOfBounds idx))"
  using assms glyph_None_iff[of c]
  by (simp add: unsupported_def loop_body_other) (simp add: switch_case_def)

theorem unsupported_character_spacer_only_witness:
  "unsupported (CHR ''a'') \<and> switch_case (CHR ''a'') 5 = ([], 5) \<and>
   loop_body (CHR ''a'') (letterSegments power_on, 5) = Inr ((letterSegments power_on)(5 := 0), 7)"
proof -
  have u: "unsupported (CHR ''a'')"
    by (simp add: unsupported_def supported_letter_def upper_case_def)
  from unsupported_character_spacer_only[OF u, of 5 "letterSegments power_on"] u
  show ?thesis by simp
qed

text \<open>
  Claim C8 says that a message of at most 9 characters is encoded within the 35 cells
  of the frame array. The message buffer holds 9 characters, a letter takes 5 cells, and
  the array holds the frames of 7 letters: on the 8-letter message \<^verbatim>\<open>AAAAAAAA\<close> the
  encoder assigns \<^verbatim>\<open>letterSegments[35]\<close>, past the end of the array.
\<close>

theorem encode_eight_letters_out_of_bounds:
  "convertMessageStringToSegments (set_message ''AAAAAAAA'' power_on)
     = Inl (SegmentIndexOutOfBounds 35)"
  by (simp add: encoder_defs)

text \<open>
  What does hold: a message of at most 7 characters is encoded within the array, and
  its frame count is at most 35.
\<close>

lemma loop_body_fits:
  assumes "idx + 5 \<le> 35"
  shows "\<exists>A' idx'. loop_body c (A, idx) = Inr (A', idx') \<and> idx' \<le> idx + 5"
proof (cases "c = CHR '' ''")
  case True
  with assms show ?thesis by (simp add: loop_body_def switch_case_def store_segment_def)
next
  case False
  with assms show ?thesis
    by (cases "glyph c")
       (auto simp: loop_body_def switch_case_def store_segment_def Let_def)
qed

lemma convert_loop_fits:
  "\<forall>i\<in>set is. i < 9 \<Longrightarrow> idx + 5 * length is \<le> 35 \<Longrightarrow>
   \<exists>A' idx'. convert_loop msg is (A, idx) = Inr (A', idx') \<and> idx' \<le> idx + 5 * length is"
proof (induction "is" arbitrary: A idx)
  case Nil
  then show ?case by simp
next
  case (Cons i "is")
  from Cons.prems have i: "i < 9" and rest: "\<forall>i\<in>set is. i < 9" and fit: "idx + 5 \<le> 35"
    by simp_all
  from loop_body_fits[OF fit, of "msg i" A] obtain A1 idx1 where
    body: "loop_body (msg i) (A, idx) = Inr (A1, idx1)" and le: "idx1 \<le> idx + 5"
    by blast
  from le Cons.prems(2) have "idx1 + 5 * length is \<le> 35"
    by simp
  from Cons.IH[OF rest this, of A1] obtain A' idx' where
    "convert_loop msg is (A1, idx1) = Inr (A', idx')" and "idx' \<le> idx1 + 5 * length is"
    by blast
  with i body le show ?case by simp
qed

lemma encode_seven_characters_fit:
  assumes "lengthOfMessageString s \<le> 7"
  shows "\<exists>s'. convertMessageStringToSegments s = Inr s' \<and> lengthOfMessage s' \<le> 35"
proof -
  let ?is = "[0..<nat (lengthOfMessageString s)]"
  from assms have "\<forall>i\<in>set ?is. i < 9" and "0 + 5 * length ?is \<le> 35"
    by auto
  from convert_loop_fits[OF this, of "messageString s" "letterSegments s"] assms
  show ?thesis
    by (auto simp: convertMessageStringToSegments_def)
qed

section \<open>Properties of the motion edge detector\<close>

text \<open>
  The handler's elapsed tick count is its local variable \<^verbatim>\<open>duration\<close>, a 16-bit
  \<^verbatim>\<open>int\<close>. It equals the counter reading up to 32767 ticks; a reading of 32768 ticks
  or more is a negative duration.
\<close>

lemma TMR1_range: "0 \<le> TMR1 s \<and> TMR1 s < 65536"
proof -
  have "uint (TMR1L s) < 256" "uint (TMR1H s) < 256"
    using uint_lt2p[of "TMR1L s"] uint_lt2p[of "TMR1H s"] by simp_all
  then show ?thesis
    by (simp add: TMR1_def)
qed

lemma uint_timer_sum:
  "uint ((ucast (TMR1L s) + 256 * ucast (TMR1H s)) :: 16 word) = TMR1 s"
proof -
  have l: "uint (TMR1L s) < 256" and h: "uint (TMR1H s) < 256"
    using uint_lt2p[of "TMR1L s"] uint_lt2p[of "TMR1H s"] by simp_all
  have "uint ((ucast (TMR1L s) + 256 * ucast (TMR1H s)) :: 16 word)
      = (uint (TMR1L s) + 256 * uint (TMR1H s)) mod 65536"
    by (simp add: uint_word_ariths uint_up_ucast is_up mod_simps)
  also have "\<dots> = uint (TMR1L s) + 256 * uint (TMR1H s)"
    using l h by simp
  finally show ?thesis by (simp add: TMR1_def)
qed

lemma duration_reading:
  "duration s = (if TMR1 s < 32768 then TMR1 s else TMR1 s - 65536)"
proof -
  let ?w = "(ucast (TMR1L s) + 256 * ucast (TMR1H s)) :: 16 word"
  have "sint ?w = take_bit 16 (uint ?w + 32768) - 32768"
    by (simp add: sint_uint signed_take_bit_eq_take_bit_shift)
  also have "\<dots> = (TMR1 s + 32768) mod 65536 - 32768"
    by (simp only: uint_timer_sum take_bit_eq_mod) simp
  also have "\<dots> = (if TMR1 s < 32768 then TMR1 s else TMR1 s - 65536)"
  proof (cases "TMR1 s < 32768")
    case True
    with TMR1_range[of s] show ?thesis by simp
  next
    case False
    have "TMR1 s + 32768 = TMR1 s - 32768 + 65536"
      by arith
    then have "(TMR1 s + 32768) mod 65536 = (TMR1 s - 32768 + 65536) mod 65536"
      by (rule arg_cong)
    also have "\<dots> = (TMR1 s - 32768) mod 65536"
      by (simp only: mod_add_self2)
    also have "\<dots> = TMR1 s - 32768"
      using False TMR1_range[of s] by simp
    finally show ?thesis using False by simp
  qed
  finally show ?thesis by (simp add: duration_def)
qed

lemma duration_wraps: "duration (power_on\<lparr>TMR1H := 0x80, TMR1L := 0x00\<rparr>) = - 32768"
  by (simp add: duration_def)

lemma ISR_keeps:
  "letterSegments (ISR q s) = letterSegments s"
  "lengthOfMessage (ISR q s) = lengthOfMessage s"
  "PORTC (ISR q s) = PORTC s"
  by (simp_all add: ISR_def Let_def)

text \<open>
  A start edge whose duration is past its threshold: the frame period is the
  floating-point quotient \<open>q\<close>, the running flag is set and the timer registers are
  cleared. With the exact quotient of the specification, 3600 ticks and 10 frames give
  150.
\<close>

lemma ISR_start:
  assumes "C1OUT s" and "duration s > 1500"
  shows "ISR q s = s\<lparr>timePerSegment := q (duration s) (lengthOfMessage s), isSequenceRunning := 1,
                       TMR1H := 0, TMR1L := 0, TMR1ON := True, C1IF := False\<rparr>"
  using assms by (simp add: ISR_def Let_def duration_def)

lemma spec_framePeriod_example: "spec_framePeriod 3600 10 = 150"
  by (simp add: spec_framePeriod_def)

text \<open>
  In terms of the counter reading: a start edge is validated at the readings from 1501
  to 32767, an end edge at the readings from 14001 to 32767, and at every reading from
  32768 to 65535 the handler ignores the edge, whichever its direction.
\<close>

lemma start_edge_in_range:
  assumes "C1OUT s" and "1500 < TMR1 s" and "TMR1 s < 32768"
  shows "ISR q s = s\<lparr>timePerSegment := q (TMR1 s) (lengthOfMessage s), isSequenceRunning := 1,
                       TMR1H := 0, TMR1L := 0, TMR1ON := True, C1IF := False\<rparr>"
proof -
  from assms have "duration s = TMR1 s" and "duration s > 1500"
    by (simp_all add: duration_reading)
  with ISR_start[OF assms(1), of q] show ?thesis by simp
qed

lemma end_edge_in_range:
  assumes "\<not> C1OUT s" and "14000 < TMR1 s" and "TMR1 s < 32768"
  shows "ISR q s = s\<lparr>timePerSegment := 0, delayingVariable := 1, TMR1H := 0, TMR1L := 0,
                       TMR1ON := True, C1IF := False\<rparr>"
proof -
  from assms have d: "duration s > 14000"
    by (simp add: duration_reading)
  have "duration (s\<lparr>TMR1ON := True\<rparr>) = duration s"
    by (simp add: duration_def)
  with assms(1) d show ?thesis
    by (simp add: ISR_def Let_def)
qed

lemma wrapped_reading_ignored:
  assumes "32768 \<le> TMR1 s"
  shows "ISR q s = s\<lparr>TMR1ON := True, C1IF := False\<rparr>"
proof -
  from assms TMR1_range[of s] have d: "duration s < 0"
    by (simp add: duration_reading)
  have "duration (s\<lparr>TMR1ON := True\<rparr>) = duration s"
    by (simp add: duration_def)
  with d show ?thesis
    by (simp add: ISR_def Let_def)
qed

text \<open>
  With the delay counter at 1, the busy-wait loop that the handler interrupted in its
  body decrements the counter to 0 and leaves at the check that follows.
\<close>

lemma delay_loop_counter_one:
  assumes "delayingVariable s = 1"
  shows "delay_loop q sch (s\<lparr>delayingVariable := delayingVariable s - 1\<rparr>) k
           = (s\<lparr>delayingVariable := 0\<rparr>, sch, k)"
  by (subst delay_loop.simps) (simp add: assms)

text \<open>
  Claim C1 says that every start edge with more than 1500 elapsed ticks and a positive
  frame count is validated: the frame period is set from the quotient, the running flag
  is set and the tick counter is cleared. The handler holds the elapsed ticks in a
  16-bit \<^verbatim>\<open>int\<close>: a start edge taken at the counter reading 32768, with 10 frames, has
  the duration -32768 and is ignored, whatever the floating-point quotient \<open>q\<close> is.
  The frame period keeps its 100, the running flag stays 0, and the counter is not
  cleared.
\<close>

theorem start_edge_wrapped_reading_ignored:
  "TMR1 (power_on\<lparr>lengthOfMessage := 10, TMR1H := 0x80, TMR1L := 0x00, C1OUT := True\<rparr>) = 32768 \<and>
   duration (power_on\<lparr>lengthOfMessage := 10, TMR1H := 0x80, TMR1L := 0x00, C1OUT := True\<rparr>)
     = - 32768 \<and>
   ISR q (power_on\<lparr>lengthOfMessage := 10, TMR1H := 0x80, TMR1L := 0x00, C1OUT := True\<rparr>)
     = power_on\<lparr>lengthOfMessage := 10, TMR1H := 0x80, TMR1L := 0x00, C1OUT := True,
                TMR1ON := True, C1IF := False\<rparr> \<and>
   timePerSegment
     (ISR q (power_on\<lparr>lengthOfMessage := 10, TMR1H := 0x80, TMR1L := 0x00, C1OUT := True\<rparr>))
     = 100 \<and>
   isSequenceRunning
     (ISR q (power_on\<lparr>lengthOfMessage := 10, TMR1H := 0x80, TMR1L := 0x00, C1OUT := True\<rparr>))
     = 0"
  by (simp add: TMR1_def duration_def ISR_def Let_def power_on_def)

text \<open>
  Claim C2. An edge whose elapsed tick count is at or below its threshold, 1500 for a
  start edge (comparator output 1) and 14000 for an end edge (comparator output 0),
  changes nothing but the interrupt housekeeping: the frame period, the running flag,
  the delay counter and both timer registers keep their values, so the tick counter is
  not reset.
\<close>

theorem noise_edge_ignored:
  assumes "(\<not> C1OUT s \<and> duration s \<le> 14000) \<or> (C1OUT s \<and> duration s \<le> 1500)"
  shows "ISR q s = s\<lparr>TMR1ON := True, C1IF := False\<rparr> \<and>
         timePerSegment (ISR q s) = timePerSegment s \<and>
         isSequenceRunning (ISR q s) = isSequenceRunning s \<and>
         delayingVariable (ISR q s) = delayingVariable s \<and>
         TMR1H (ISR q s) = TMR1H s \<and> TMR1L (ISR q s) = TMR1L s"
  using assms by (auto simp: ISR_def Let_def duration_def)

theorem noise_edge_ignored_witness:
  "duration (power_on\<lparr>TMR1H := 0x05, TMR1L := 0xDC, C1OUT := True\<rparr>) = 1500 \<and>
   ISR spec_framePeriod (power_on\<lparr>TMR1H := 0x05, TMR1L := 0xDC, C1OUT := True\<rparr>)
     = power_on\<lparr>TMR1H := 0x05, TMR1L := 0xDC, C1OUT := True, TMR1ON := True, C1IF := False\<rparr> \<and>
   duration (power_on\<lparr>TMR1H := 0x36, TMR1L := 0xB0, C1OUT := False\<rparr>) = 14000 \<and>
   ISR spec_framePeriod (power_on\<lparr>TMR1H := 0x36, TMR1L := 0xB0, C1OUT := False\<rparr>)
     = power_on\<lparr>TMR1H := 0x36, TMR1L := 0xB0, C1OUT := False, TMR1ON := True, C1IF := False\<rparr>"
proof -
  let ?r = "power_on\<lparr>TMR1H := 0x05, TMR1L := 0xDC, C1OUT := True\<rparr>"
  let ?f = "power_on\<lparr>TMR1H := 0x36, TMR1L := 0xB0, C1OUT := False\<rparr>"
  have dr: "duration ?r = 1500" and df: "duration ?f = 14000"
    by (simp_all add: duration_def)
  have hr: "(\<not> C1OUT ?r \<and> duration ?r \<le> 14000) \<or> (C1OUT ?r \<and> duration ?r \<le> 1500)"
    by (simp add: dr)
  have hf: "(\<not> C1OUT ?f \<and> duration ?f \<le> 14000) \<or> (C1OUT ?f \<and> duration ?f \<le> 1500)"
    by (simp add: df)
  from noise_edge_ignored[OF hr, of spec_framePeriod] noise_edge_ignored[OF hf, of spec_framePeriod]
    dr df
  show ?thesis by simp
qed

text \<open>
  Claim C3 says that every end edge with more than 14000 elapsed ticks is validated: the
  frame period is set to 0, the delay countdown is forced and the tick counter is
  cleared. An end edge taken at the counter reading 65535 has the duration -1 in the
  handler's 16-bit \<^verbatim>\<open>int\<close> and is ignored: the frame period keeps its 100, the delay
  counter its 57, and the counter is not cleared.
\<close>

theorem end_edge_wrapped_reading_ignored:
  "TMR1 (power_on\<lparr>delayingVariable := 57, TMR1H := 0xFF, TMR1L := 0xFF, C1OUT := False\<rparr>) = 65535 \<and>
   duration (power_on\<lparr>delayingVariable := 57, TMR1H := 0xFF, TMR1L := 0xFF, C1OUT := False\<rparr>)
     = - 1 \<and>
   ISR q (power_on\<lparr>delayingVariable := 57, TMR1H := 0xFF, TMR1L := 0xFF, C1OUT := False\<rparr>)
     = power_on\<lparr>delayingVariable := 57, TMR1H := 0xFF, TMR1L := 0xFF, C1OUT := False,
                TMR1ON := True, C1IF := False\<rparr> \<and>
   timePerSegment
     (ISR q (power_on\<lparr>delayingVariable := 57, TMR1H := 0xFF, TMR1L := 0xFF, C1OUT := False\<rparr>))
     = 100 \<and>
   delayingVariable
     (ISR q (power_on\<lparr>delayingVariable := 57, TMR1H := 0xFF, TMR1L := 0xFF, C1OUT := False\<rparr>))
     = 57"
  by (simp add: TMR1_def duration_def ISR_def Let_def power_on_def)

section \<open>Properties of the display sequencer\<close>

lemma comparator_interrupt_keeps:
  "letterSegments (comparator_interrupt q e s) = letterSegments s"
  "lengthOfMessage (comparator_interrupt q e s) = lengthOfMessage s"
  "PORTC (comparator_interrupt q e s) = PORTC s"
  by (simp_all add: comparator_interrupt_def ISR_keeps split: option.splits)

lemma delay_loop_keeps:
  "letterSegments (fst (delay_loop q sch s k)) = letterSegments s \<and>
   lengthOfMessage (fst (delay_loop q sch s k)) = lengthOfMessage s \<and>
   PORTC (fst (delay_loop q sch s k)) = PORTC s"
proof (induction q sch s k rule: delay_loop.induct)
  case (1 q sch s k)
  show ?case
  proof (cases "delayingVariable s > 0")
    case True
    with 1[OF True refl] show ?thesis
      by (subst (1 2 3) delay_loop.simps) (simp add: Let_def comparator_interrupt_keeps)
  next
    case False
    then show ?thesis
      by (subst (1 2 3) delay_loop.simps) simp
  qed
qed

lemma delay_loop_uninterrupted:
  "nat (delayingVariable s) = n \<Longrightarrow>
   delay_loop q [] s k =
     (if delayingVariable s > 0 then s\<lparr>delayingVariable := 0\<rparr> else s, [], k + n)"
proof (induction n arbitrary: s k)
  case 0
  then show ?case by (subst delay_loop.simps) simp
next
  case (Suc n)
  let ?s = "s\<lparr>delayingVariable := delayingVariable s - 1\<rparr>"
  from Suc.prems have pos: "delayingVariable s > 0" and n: "nat (delayingVariable ?s) = n"
    by auto
  from Suc.IH[OF n, of "Suc k"] pos show ?case
    by (subst delay_loop.simps)
       (auto simp: Let_def next_edge_def comparator_interrupt_def intro: wand.equality)
qed


lemma show_frames_outputs:
  "\<forall>i\<in>set is. i < 35 \<Longrightarrow>
   \<exists>s' sch' outs. show_frames q is sch s out = Inr (s', sch', out @ outs) \<and>
     map fst outs = map (letterSegments s) is \<and>
     letterSegments s' = letterSegments s \<and> lengthOfMessage s' = lengthOfMessage s"
proof (induction "is" arbitrary: sch s out)
  case Nil
  then show ?case by simp
next
  case (Cons i "is")
  let ?s0 = "comparator_interrupt q (next_edge sch) s"
  let ?s1 = "?s0\<lparr>PORTC := letterSegments ?s0 i\<rparr>"
  let ?r = "delay q (tl sch) (timePerSegment ?s1) ?s1"
  let ?x = "(PORTC ?s1, snd (snd ?r))"
  from Cons.prems have i: "i < 35" and rest: "\<forall>i\<in>set is. i < 35"
    by simp_all
  have keep: "letterSegments (fst ?r) = letterSegments s"
             "lengthOfMessage (fst ?r) = lengthOfMessage s"
    using delay_loop_keeps[of q "tl sch" "?s1\<lparr>delayingVariable := timePerSegment ?s1\<rparr>" 0]
    by (simp_all add: delay_def comparator_interrupt_keeps)
  from Cons.IH[OF rest, of "fst (snd ?r)" "fst ?r" "out @ [?x]"]
  obtain s' sch' outs where
    run: "show_frames q is (fst (snd ?r)) (fst ?r) (out @ [?x]) = Inr (s', sch', (out @ [?x]) @ outs)"
    and outs: "map fst outs = map (letterSegments (fst ?r)) is"
    and k: "letterSegments s' = letterSegments (fst ?r)" "lengthOfMessage s' = lengthOfMessage (fst ?r)"
    by blast
  have a: "show_frames q (i # is) sch s out = Inr (s', sch', out @ (?x # outs))"
    using i run by (simp add: Let_def)
  have b: "map fst (?x # outs) = map (letterSegments s) (i # is)"
    using outs keep by (simp add: comparator_interrupt_keeps)
  have c: "letterSegments s' = letterSegments s" and d: "lengthOfMessage s' = lengthOfMessage s"
    using k keep by simp_all
  show ?case
    by (rule exI[of _ s'], rule exI[of _ sch'], rule exI[of _ "?x # outs"])
       (intro conjI a b c d)
qed

lemma show_frames_uninterrupted:
  "\<forall>i\<in>set is. i < 35 \<Longrightarrow>
   \<exists>s' outs. show_frames q is [] s out = Inr (s', [], out @ outs) \<and>
     map snd outs = map (\<lambda>i. nat (timePerSegment s)) is"
proof (induction "is" arbitrary: s out)
  case Nil
  then show ?case by simp
next
  case (Cons i "is")
  let ?s1 = "s\<lparr>PORTC := letterSegments s i\<rparr>"
  let ?s2 = "if timePerSegment s > 0 then ?s1\<lparr>delayingVariable := 0\<rparr>
             else ?s1\<lparr>delayingVariable := timePerSegment s\<rparr>"
  let ?x = "(letterSegments s i, nat (timePerSegment s))"
  from Cons.prems have i: "i < 35" and rest: "\<forall>i\<in>set is. i < 35"
    by simp_all
  have d: "delay q [] (timePerSegment ?s1) ?s1 = (?s2, [], nat (timePerSegment s))"
    using delay_loop_uninterrupted[of "?s1\<lparr>delayingVariable := timePerSegment s\<rparr>" _ q 0]
    by (simp add: delay_def)
  have tps: "timePerSegment ?s2 = timePerSegment s"
    by simp
  from Cons.IH[OF rest, of ?s2 "out @ [?x]"] obtain s' outs where
    run: "show_frames q is [] ?s2 (out @ [?x]) = Inr (s', [], (out @ [?x]) @ outs)"
    and outs: "map snd outs = map (\<lambda>i. nat (timePerSegment ?s2)) is"
    by blast
  have a: "show_frames q (i # is) [] s out = Inr (s', [], out @ (?x # outs))"
    using i run d by (simp add: Let_def next_edge_def comparator_interrupt_def)
  have b: "map snd (?x # outs) = map (\<lambda>i. nat (timePerSegment s)) (i # is)"
    using outs tps by simp
  show ?case
    by (rule exI[of _ s'], rule exI[of _ "?x # outs"]) (intro conjI a b)
qed

text \<open>
  Claim C7. When the running flag is set and the frame count is within the 35 cells, one
  pass of the main loop writes the frames to the port in reverse order, from index
  \<open>lengthOfMessage - 1\<close> down to 0, under every schedule of interrupts, so also when a
  validated end edge aborts the display; it then writes zero to the port, and the
  controller clears the running flag. When no interrupt arrives, every frame is held
  for \<open>timePerSegment\<close> ticks of the busy-wait loop.
\<close>

theorem display_sequence:
  assumes "isSequenceRunning s \<noteq> 0" and "lengthOfMessage s \<le> 35"
  shows "\<exists>s' sch' out. main_loop_body q sch s = Inr (s', sch', out) \<and>
           map fst out = rev (FrameSequence s) \<and>
           PORTC s' = 0 \<and> isSequenceRunning s' = 0 \<and>
           (sch = [] \<longrightarrow> map snd out = map (\<lambda>f. nat (timePerSegment s)) (FrameSequence s))"
proof -
  let ?is = "rev [0..<nat (lengthOfMessage s)]"
  from assms(2) have bound: "\<forall>i\<in>set ?is. i < 35"
    by auto
  from show_frames_outputs[OF bound, of q sch s "[]"] obtain s1 sch1 outs where
    run: "show_frames q ?is sch s [] = Inr (s1, sch1, outs)"
    and outs: "map fst outs = map (letterSegments s) ?is"
    by auto
  have main: "main_loop_body q sch s = Inr (s1\<lparr>PORTC := 0, isSequenceRunning := 0\<rparr>, sch1, outs)"
    using assms(1) run by (simp add: main_loop_body_def runLEDSequence_def)
  have frames: "map fst outs = rev (FrameSequence s)"
    using outs by (simp add: FrameSequence_def rev_map)
  have "map snd outs = map (\<lambda>f. nat (timePerSegment s)) (FrameSequence s)" if "sch = []"
  proof -
    from show_frames_uninterrupted[OF bound, of q s "[]"] run that
    have "map snd outs = map (\<lambda>i. nat (timePerSegment s)) ?is"
      by auto
    then show ?thesis
      by (simp add: FrameSequence_def map_replicate_const)
  qed
  with main frames show ?thesis by simp
qed

theorem display_sequence_witness:
  "(\<exists>s' sch' out.
     main_loop_body spec_framePeriod []
       ((projr (convertMessageStringToSegments (set_message ''HI'' power_on)))
          \<lparr>timePerSegment := 2, isSequenceRunning := 1\<rparr>) = Inr (s', sch', out) \<and>
     map fst out = [0, 0, 0x81, 0xFF, 0x81, 0, 0, 0xFF, 0x08, 0xFF] \<and>
     PORTC s' = 0 \<and> isSequenceRunning s' = 0 \<and>
     map snd out = [2, 2, 2, 2, 2, 2, 2, 2, 2, 2]) \<and>
   (\<exists>s' sch' out.
     main_loop_body spec_framePeriod [None, None, None, Some (False, 0x40, 0x00)]
       ((projr (convertMessageStringToSegments (set_message ''HI'' power_on)))
          \<lparr>timePerSegment := 2, isSequenceRunning := 1\<rparr>) = Inr (s', sch', out) \<and>
     map fst out = [0, 0, 0x81, 0xFF, 0x81, 0, 0, 0xFF, 0x08, 0xFF] \<and>
     PORTC s' = 0 \<and> isSequenceRunning s' = 0)"
proof -
  let ?s = "(projr (convertMessageStringToSegments (set_message ''HI'' power_on)))
              \<lparr>timePerSegment := 2, isSequenceRunning := 1\<rparr>"
  have run: "isSequenceRunning ?s \<noteq> 0"
    by simp
  have fit: "lengthOfMessage ?s \<le> 35"
    by (simp add: encoder_defs)
  have f: "FrameSequence ?s = [0xFF, 0x08, 0xFF, 0, 0, 0x81, 0xFF, 0x81, 0, 0]"
    by (simp add: encoder_defs FrameSequence_def)
  from display_sequence[OF run fit, of spec_framePeriod "[]"]
  have quiet: "\<exists>s' sch' out.
     main_loop_body spec_framePeriod [] ?s = Inr (s', sch', out) \<and>
     map fst out = [0, 0, 0x81, 0xFF, 0x81, 0, 0, 0xFF, 0x08, 0xFF] \<and>
     PORTC s' = 0 \<and> isSequenceRunning s' = 0 \<and>
     map snd out = [2, 2, 2, 2, 2, 2, 2, 2, 2, 2]"
    by (simp add: f)
  from display_sequence[OF run fit, of spec_framePeriod "[None, None, None, Some (False, 0x40, 0x00)]"]
  have aborted: "\<exists>s' sch' out.
     main_loop_body spec_framePeriod [None, None, None, Some (False, 0x40, 0x00)] ?s
       = Inr (s', sch', out) \<and>
     map fst out = [0, 0, 0x81, 0xFF, 0x81, 0, 0, 0xFF, 0x08, 0xFF] \<and>
     PORTC s' = 0 \<and> isSequenceRunning s' = 0"
    by (simp add: f)
  from quiet aborted show ?thesis by (intro conjI)
qed

end
